theory Spec2Isabelle
  imports Main
begin

section \<open>Characters with a special meaning in the CSV handler\<close>

text \<open>
  The source file is \<^verbatim>\<open>cpp/04-data-science/02-simple-csv-handler.cpp\<close>.
  A \<^verbatim>\<open>std::string\<close> is a sequence of bytes, modelled as \<^typ>\<open>string\<close>.
\<close>

abbreviation dquote :: char where "dquote \<equiv> CHR 0x22"
abbreviation comma :: char where "comma \<equiv> CHR 0x2C"
abbreviation newline :: char where "newline \<equiv> CHR 0x0A"
abbreviation cret :: char where "cret \<equiv> CHR 0x0D"
abbreviation nul :: char where "nul \<equiv> CHR 0x00"

section \<open>The encoder: \<^verbatim>\<open>escape_csv_field\<close>\<close>

text \<open>
  The range-for loop of lines 18 to 27, with its two accumulators
  \<^verbatim>\<open>needs_quoting\<close> and \<^verbatim>\<open>escaped_field\<close>.
\<close>

fun escape_loop :: "string \<Rightarrow> bool \<Rightarrow> string \<Rightarrow> bool \<times> string" where
  "escape_loop [] needs_quoting escaped_field = (needs_quoting, escaped_field)"
| "escape_loop (c # cs) needs_quoting escaped_field =
     escape_loop cs
       (if c = comma \<or> c = newline \<or> c = dquote then True else needs_quoting)
       (if c = dquote then escaped_field @ [dquote, dquote] else escaped_field @ [c])"

definition escape_csv_field :: "string \<Rightarrow> string" where
  "escape_csv_field field =
     (case escape_loop field False [] of
        (needs_quoting, escaped_field) \<Rightarrow>
          if needs_quoting then [dquote] @ escaped_field @ [dquote] else field)"

section \<open>The writer: \<^verbatim>\<open>write_csv\<close>\<close>

text \<open>
  The world the two file functions run in. \<open>files\<close> gives the content of every path
  that can be opened for reading; \<open>creatable\<close> says whether a \<^verbatim>\<open>std::ofstream\<close>
  on the path opens; \<open>accepts n\<close> says whether the destination takes the character at
  offset \<open>n\<close> of the output (a full or failing device refuses one);
  \<open>read_limit\<close> is the number of characters a path delivers before the device
  reports a read error (\<open>None\<close>: it never does).
\<close>

record disk =
  files :: "string \<Rightarrow> string option"
  creatable :: "string \<Rightarrow> bool"
  accepts :: "nat \<Rightarrow> bool"
  read_limit :: "string \<Rightarrow> nat option"

text \<open>
  An output stream: the characters that reached the destination and the state that
  \<^verbatim>\<open>fail()\<close> reads (failbit or badbit). An insertion into a failed stream does
  nothing; an insertion stops at the first character the destination refuses.
\<close>

record ofstream =
  written :: string
  o_fail :: bool

fun put :: "(nat \<Rightarrow> bool) \<Rightarrow> ofstream \<Rightarrow> string \<Rightarrow> ofstream" where
  "put dev os [] = os"
| "put dev os (c # cs) =
     (if o_fail os then os
      else if dev (length (written os)) then put dev (os\<lparr>written := written os @ [c]\<rparr>) cs
      else os\<lparr>o_fail := True\<rparr>)"

text \<open>
  The inner loop over \<^verbatim>\<open>j\<close> (lines 51 to 56). Inside the loop
  \<^verbatim>\<open>row.size()\<close> is at least 1, so the unsigned \<^verbatim>\<open>row.size() - 1\<close> does not wrap.
\<close>

function write_fields :: "(nat \<Rightarrow> bool) \<Rightarrow> string list \<Rightarrow> nat \<Rightarrow> ofstream \<Rightarrow> ofstream" where
  "write_fields dev row j os =
     (if j < length row then
        let os1 = put dev os (escape_csv_field (row ! j));
            os2 = (if j < length row - 1 then put dev os1 [comma] else os1)
        in write_fields dev row (j + 1) os2
      else os)"
  by pat_completeness auto
termination
  by (relation "measure (\<lambda>(dev, row, j, os). length row - j)") auto

declare write_fields.simps [simp del]

text \<open>The outer loop over \<^verbatim>\<open>i\<close> (lines 49 to 61).\<close>

function write_rows :: "(nat \<Rightarrow> bool) \<Rightarrow> string list list \<Rightarrow> nat \<Rightarrow> ofstream \<Rightarrow> ofstream" where
  "write_rows dev data_to_write i os =
     (if i < length data_to_write then
        let row = data_to_write ! i;
            os1 = write_fields dev row 0 os;
            os2 = put dev os1 [newline]
        in write_rows dev data_to_write (i + 1) os2
      else os)"
  by pat_completeness auto
termination
  by (relation "measure (\<lambda>(dev, d, i, os). length d - i)") auto

declare write_rows.simps [simp del]

text \<open>
  \<^verbatim>\<open>write_csv\<close> returns its boolean, what it printed on \<^verbatim>\<open>std::cerr\<close>, and the
  disk afterwards. Opening truncates the file; whatever was written before a failure
  stays in it.
\<close>

definition write_csv :: "disk \<Rightarrow> string \<Rightarrow> string list list \<Rightarrow> bool \<times> string \<times> disk" where
  "write_csv d filename data_to_write =
     (if \<not> creatable d filename then
        (False, ''Error: Could not open file '' @ filename @ '' for writing.'' @ [newline], d)
      else
        let outfile = write_rows (accepts d) data_to_write 0 \<lparr>written = [], o_fail = False\<rparr>;
            d' = d\<lparr>files := (files d)(filename \<mapsto> written outfile)\<rparr>
        in if o_fail outfile then
             (False, ''Error: An error occurred while writing to '' @ filename @ [newline], d')
           else (True, [], d'))"

section \<open>The reader: \<^verbatim>\<open>read_csv\<close>\<close>

subsection \<open>The string stream over one line\<close>

text \<open>
  \<^verbatim>\<open>std::stringstream line_stream(line)\<close>: the characters not yet extracted and the
  two state bits the parser can observe. \<^verbatim>\<open>get\<close> and \<^verbatim>\<open>peek\<close> are
  unformatted input functions: on a stream that is not \<^verbatim>\<open>good()\<close> they set failbit
  and deliver nothing; at the end of the characters \<^verbatim>\<open>get\<close> sets eofbit and failbit,
  \<^verbatim>\<open>peek\<close> sets eofbit and returns \<^verbatim>\<open>EOF\<close> (\<open>None\<close>).
\<close>

record sstream =
  rest :: string
  eofbit :: bool
  failbit :: bool

definition sstream_of :: "string \<Rightarrow> sstream" where
  "sstream_of line = \<lparr>rest = line, eofbit = False, failbit = False\<rparr>"

definition good :: "sstream \<Rightarrow> bool" where
  "good s = (\<not> eofbit s \<and> \<not> failbit s)"

definition sget :: "sstream \<Rightarrow> char option \<times> sstream" where
  "sget s =
     (if \<not> good s then (None, s\<lparr>failbit := True\<rparr>)
      else case rest s of
             [] \<Rightarrow> (None, s\<lparr>eofbit := True, failbit := True\<rparr>)
           | c # cs \<Rightarrow> (Some c, s\<lparr>rest := cs\<rparr>))"

definition speek :: "sstream \<Rightarrow> char option \<times> sstream" where
  "speek s =
     (if \<not> good s then (None, s\<lparr>failbit := True\<rparr>)
      else case rest s of
             [] \<Rightarrow> (None, s\<lparr>eofbit := True\<rparr>)
           | c # cs \<Rightarrow> (Some c, s))"

subsection \<open>The loops of the line parser\<close>

text \<open>
  The loop of the quoted branch (lines 106 to 118), entered after the opening quote
  was extracted: it stops at a quote that is not followed by a second one, or when
  \<^verbatim>\<open>get\<close> fails.
\<close>

function read_quoted :: "sstream \<Rightarrow> string \<Rightarrow> string \<times> sstream" where
  "read_quoted s quoted_content =
     (case sget s of
        (None, s1) \<Rightarrow> (quoted_content, s1)
      | (Some c, s1) \<Rightarrow>
          if c = dquote then
            (case speek s1 of
               (p, s2) \<Rightarrow>
                 if p = Some dquote then
                   (case sget s2 of (_, s3) \<Rightarrow> read_quoted s3 (quoted_content @ [dquote]))
                 else (quoted_content, s2))
          else read_quoted s1 (quoted_content @ [c]))"
  by pat_completeness auto
termination
  apply (relation "measure (\<lambda>(s, q). length (rest s))")
  apply (auto simp: sget_def speek_def good_def split: if_splits list.splits)
  done

declare read_quoted.simps [simp del]

text \<open>
  The loop of the unquoted branch (lines 134 to 137), entered with the first character
  already in \<^verbatim>\<open>field\<close>; its condition peeks twice. The result of the
  \<^verbatim>\<open>get\<close> in its body is not tested: a \<^verbatim>\<open>get\<close> that fails leaves \<^verbatim>\<open>c\<close> as
  it was.
\<close>

function read_unquoted :: "sstream \<Rightarrow> char \<Rightarrow> string \<Rightarrow> string \<times> sstream" where
  "read_unquoted s c field =
     (case speek s of
        (p1, s1) \<Rightarrow>
          if p1 = None then (field, s1)
          else (case speek s1 of
                  (p2, s2) \<Rightarrow>
                    if p2 = Some comma then (field, s2)
                    else (case sget s2 of
                            (r, s3) \<Rightarrow>
                              let c' = (case r of Some x \<Rightarrow> x | None \<Rightarrow> c)
                              in read_unquoted s3 c' (field @ [c']))))"
  by pat_completeness auto
termination
  apply (relation "measure (\<lambda>(s, c, f). length (rest s))")
  apply (auto simp: sget_def speek_def good_def split: if_splits list.splits)
  done

declare read_unquoted.simps [simp del]

lemma sget_rest_le: "sget s = (r, s1) \<Longrightarrow> length (rest s1) \<le> length (rest s)"
  by (auto simp: sget_def split: if_splits list.splits)

lemma sget_Some_rest: "sget s = (Some c, s1) \<Longrightarrow> length (rest s1) < length (rest s)"
  by (auto simp: sget_def split: if_splits list.splits)

lemma speek_rest: "speek s = (p, s1) \<Longrightarrow> rest s1 = rest s"
  by (auto simp: speek_def split: if_splits list.splits)

lemma read_quoted_rest_le: "length (rest (snd (read_quoted s q))) \<le> length (rest s)"
proof (induction s q rule: read_quoted.induct)
  case (1 s q)
  show ?case
  proof (cases "sget s")
    case (Pair r s1)
    note g = this
    show ?thesis
    proof (cases r)
      case None
      with g show ?thesis using sget_rest_le [OF g] by (subst read_quoted.simps) simp
    next
      case (Some c)
      note g1 = g [unfolded Some]
      have lt: "length (rest s1) < length (rest s)" using sget_Some_rest [OF g1] .
      show ?thesis
      proof (cases "c = dquote")
        case False
        then show ?thesis
          using "1.IH"(2) [OF g1 [symmetric] refl False] lt g1
          by (subst read_quoted.simps) simp
      next
        case True
        obtain p s2 where pk: "speek s1 = (p, s2)" by (cases "speek s1")
        obtain r3 s3 where g3: "sget s2 = (r3, s3)" by (cases "sget s2")
        have e2: "rest s2 = rest s1" using speek_rest [OF pk] .
        show ?thesis
        proof (cases "p = Some dquote")
          case False
          then show ?thesis using g1 True pk e2 lt
            by (subst read_quoted.simps) simp
        next
          case T2: True
          have "length (rest (snd (read_quoted s3 (q @ [dquote])))) \<le> length (rest s3)"
            using "1.IH"(1) [OF g1 [symmetric] refl True pk [symmetric] T2 g3 [symmetric]] .
          moreover have "length (rest s3) \<le> length (rest s2)" using sget_rest_le [OF g3] .
          ultimately show ?thesis using g1 True pk T2 g3 e2 lt
            by (subst read_quoted.simps) simp
        qed
      qed
    qed
  qed
qed

lemma read_unquoted_rest_le: "length (rest (snd (read_unquoted s c f))) \<le> length (rest s)"
proof (induction s c f rule: read_unquoted.induct)
  case (1 s c f)
  obtain p1 s1 where k1: "speek s = (p1, s1)" by (cases "speek s")
  obtain p2 s2 where k2: "speek s1 = (p2, s2)" by (cases "speek s1")
  obtain r s3 where g: "sget s2 = (r, s3)" by (cases "sget s2")
  have e1: "rest s1 = rest s" using speek_rest [OF k1] .
  have e2: "rest s2 = rest s1" using speek_rest [OF k2] .
  have l3: "length (rest s3) \<le> length (rest s2)" using sget_rest_le [OF g] .
  show ?case
  proof (cases "p1 = None \<or> p2 = Some comma")
    case True
    then show ?thesis using k1 k2 e1 e2 by (subst read_unquoted.simps) auto
  next
    case False
    then have a: "p1 \<noteq> None" and b: "p2 \<noteq> Some comma" by auto
    define c' where "c' = (case r of Some x \<Rightarrow> x | None \<Rightarrow> c)"
    have "length (rest (snd (read_unquoted s3 c' (f @ [c'])))) \<le> length (rest s3)"
      using "1.IH" [OF k1 [symmetric] a k2 [symmetric] b g [symmetric] c'_def] .
    then show ?thesis using k1 k2 g a b e1 e2 l3 c'_def
      by (subst read_unquoted.simps) (simp add: Let_def)
  qed
qed

text \<open>
  The empty \<^verbatim>\<open>if\<close> of lines 125 to 129 does nothing in its body, but its condition
  peeks, once or twice, and a peek can set state bits.
\<close>

definition peek_after_quote :: "sstream \<Rightarrow> sstream" where
  "peek_after_quote s =
     (case speek s of (p1, s1) \<Rightarrow> if p1 = None then s1 else snd (speek s1))"

lemma peek_after_quote_rest: "rest (peek_after_quote s) = rest s"
  by (auto simp: peek_after_quote_def speek_def split: if_splits list.splits)

lemma read_field_rest_le:
  "(f, s2) =
     (if c = dquote then
        (case read_quoted s1 [] of (quoted_content, sq) \<Rightarrow> (quoted_content, peek_after_quote sq))
      else read_unquoted s1 c [c])
   \<Longrightarrow> length (rest s2) \<le> length (rest s1)"
  using read_quoted_rest_le [of s1 "[]"] read_unquoted_rest_le [of s1 c "[c]"]
  by (auto simp: peek_after_quote_rest split: if_splits prod.splits dest: arg_cong [where f = snd])

text \<open>
  The main loop over the characters of the line (lines 99 to 148). \<^verbatim>\<open>field\<close> is
  empty whenever the loop condition is evaluated: it is declared empty and cleared at
  line 141.
\<close>

function parse_fields :: "sstream \<Rightarrow> string list \<Rightarrow> string \<Rightarrow> string list" where
  "parse_fields s row field =
     (case sget s of
        (None, s1) \<Rightarrow> row
      | (Some c, s1) \<Rightarrow>
          if eofbit s1 \<and> field = [] \<and> c = nul then row
          else
            (case (if c = dquote then
                     (case read_quoted s1 [] of
                        (quoted_content, sq) \<Rightarrow> (quoted_content, peek_after_quote sq))
                   else read_unquoted s1 c [c]) of
               (field', s2) \<Rightarrow>
                 let row' = row @ [field'] in
                 (case speek s2 of
                    (p, s3) \<Rightarrow>
                      if p = Some comma then
                        (case sget s3 of (_, s4) \<Rightarrow> parse_fields s4 row' [])
                      else
                        (case speek s3 of
                           (p', s5) \<Rightarrow>
                             if p' = None then row' else parse_fields s5 row' []))))"
  by pat_completeness auto
termination
proof (relation "measure (\<lambda>(s, row, f). length (rest s))", goal_cases)
  case 1
  show ?case by simp
next
  case (2 s row field x y x2 xa ya xb xc yb xd yc)
  have "length (rest y) < length (rest s)"
    using sget_Some_rest [of s x2 y] 2(1,2) by simp
  moreover have "length (rest ya) \<le> length (rest y)"
    using read_field_rest_le [OF 2(4)] .
  moreover have "rest yb = rest ya" using speek_rest [OF 2(6) [symmetric]] .
  moreover have "length (rest yc) \<le> length (rest yb)" using sget_rest_le [OF 2(8) [symmetric]] .
  ultimately show ?case by simp
next
  case (3 s row field x y x2 xa ya xb xc yb xd yc)
  have "length (rest y) < length (rest s)"
    using sget_Some_rest [of s x2 y] 3(1,2) by simp
  moreover have "length (rest ya) \<le> length (rest y)"
    using read_field_rest_le [OF 3(4)] .
  moreover have "rest yb = rest ya" using speek_rest [OF 3(6) [symmetric]] .
  moreover have "rest yc = rest yb" using speek_rest [OF 3(8) [symmetric]] .
  ultimately show ?case by simp
qed

declare parse_fields.simps [simp del]

text \<open>
  What one iteration of the line loop does with the line it holds after the carriage
  return was stripped (lines 94 to 155): the fields of the character loop, and one more
  empty field when the line ends in a comma (lines 150 to 152).
\<close>

definition parse_line :: "string \<Rightarrow> string list" where
  "parse_line line =
     (let row = parse_fields (sstream_of line) [] []
      in if line \<noteq> [] \<and> last line = comma then row @ [[]] else row)"

subsection \<open>The file stream and the loop over its lines\<close>

text \<open>
  \<^verbatim>\<open>std::ifstream infile\<close>: the characters the device will still deliver, the three
  state bits, and \<open>i_broken\<close>, which says that the device reports an error, not the
  end of the file, once they are used up.
\<close>

record ifstream =
  i_rest :: string
  i_eof :: bool
  i_fail :: bool
  i_bad :: bool
  i_broken :: bool

text \<open>
  \<^verbatim>\<open>std::getline(infile, line)\<close> together with the conversion of the stream to
  \<^verbatim>\<open>bool\<close> in the loop condition: \<open>Some line\<close> when the loop body runs with that
  line, \<open>None\<close> when the loop ends. The line break is extracted and dropped; at the end
  of the file eofbit is set, and failbit too when nothing was extracted; a device error
  sets badbit.
\<close>

definition getline :: "ifstream \<Rightarrow> string option \<times> ifstream" where
  "getline s =
     (if i_eof s \<or> i_fail s \<or> i_bad s then (None, s\<lparr>i_fail := True\<rparr>)
      else if newline \<in> set (i_rest s) then
        (Some (takeWhile (\<lambda>c. c \<noteq> newline) (i_rest s)),
         s\<lparr>i_rest := tl (dropWhile (\<lambda>c. c \<noteq> newline) (i_rest s))\<rparr>)
      else if i_broken s then
        (None, s\<lparr>i_rest := [], i_bad := True, i_fail := (i_rest s = [])\<rparr>)
      else if i_rest s = [] then (None, s\<lparr>i_eof := True, i_fail := True\<rparr>)
      else (Some (i_rest s), s\<lparr>i_rest := [], i_eof := True\<rparr>))"

lemma getline_Some_rest:
  "getline s = (Some line, s1) \<Longrightarrow> length (i_rest s1) < length (i_rest s)"
proof -
  have "newline \<in> set xs \<Longrightarrow> length (tl (dropWhile (\<lambda>c. c \<noteq> newline) xs)) < length xs"
    for xs :: string
    by (induction xs) (auto simp: less_Suc_eq_le intro: le_trans [OF length_dropWhile_le])
  then show "getline s = (Some line, s1) \<Longrightarrow> length (i_rest s1) < length (i_rest s)"
    by (auto simp: getline_def split: if_splits)
qed

text \<open>The loop over the lines of the file (lines 87 to 156).\<close>

function read_rows :: "ifstream \<Rightarrow> string list list \<Rightarrow> string list list \<times> ifstream" where
  "read_rows infile data =
     (case getline infile of
        (None, infile1) \<Rightarrow> (data, infile1)
      | (Some line0, infile1) \<Rightarrow>
          let line = (if line0 \<noteq> [] \<and> last line0 = cret then butlast line0 else line0)
          in if line = [] \<and> i_eof infile1 then read_rows infile1 data
             else read_rows infile1 (data @ [parse_line line]))"
  by pat_completeness auto
termination
proof (relation "measure (\<lambda>(s, data). length (i_rest s))", goal_cases)
  case 1
  show ?case by simp
next
  case (2 infile data x y x2 line)
  then show ?case using getline_Some_rest [of infile x2 y] by simp
next
  case (3 infile data x y x2 line)
  then show ?case using getline_Some_rest [of infile x2 y] by simp
qed

declare read_rows.simps [simp del]

text \<open>
  Opening a path for reading fails when the disk has no such readable file.
\<close>

definition open_in :: "disk \<Rightarrow> string \<Rightarrow> ifstream option" where
  "open_in d filename =
     (case files d filename of
        None \<Rightarrow> None
      | Some txt \<Rightarrow>
          Some \<lparr>i_rest = (case read_limit d filename of None \<Rightarrow> txt | Some k \<Rightarrow> take k txt),
                i_eof = False, i_fail = False, i_bad = False,
                i_broken = (case read_limit d filename of None \<Rightarrow> False
                            | Some k \<Rightarrow> k < length txt)\<rparr>)"

text \<open>
  \<^verbatim>\<open>read_csv\<close> returns the table and what it printed on \<^verbatim>\<open>std::cerr\<close>.
\<close>

definition read_csv :: "disk \<Rightarrow> string \<Rightarrow> string list list \<times> string" where
  "read_csv d filename =
     (case open_in d filename of
        None \<Rightarrow> ([], ''Error: Could not open file '' @ filename @ '' for reading.'' @ [newline])
      | Some infile \<Rightarrow>
          (case read_rows infile [] of
             (data, infile') \<Rightarrow>
               (data,
                if i_bad infile' then
                  ''Error: An I/O error occurred while reading '' @ filename @ [newline]
                else [])))"

section \<open>Reference definitions\<close>

text \<open>
  The definitions of this section are not translated from the source: they say in closed
  form what the loops above are compared with, and name the stream states and the disks
  that the statements below use.
\<close>

definition is_special :: "char \<Rightarrow> bool" where
  "is_special c = (c = comma \<or> c = newline \<or> c = dquote)"

definition double_quotes :: "string \<Rightarrow> string" where
  "double_quotes field = concat (map (\<lambda>c. if c = dquote then [dquote, dquote] else [c]) field)"

definition at_end :: sstream where
  "at_end = \<lparr>rest = [], eofbit = True, failbit = False\<rparr>"

definition failed :: sstream where
  "failed = \<lparr>rest = [], eofbit = True, failbit = True\<rparr>"

fun join_commas :: "string list \<Rightarrow> string" where
  "join_commas [] = []"
| "join_commas [x] = x"
| "join_commas (x # y # ys) = x @ [comma] @ join_commas (y # ys)"

definition csv_text :: "string list list \<Rightarrow> string" where
  "csv_text data = concat (map (\<lambda>row. join_commas (map escape_csv_field row) @ [newline]) data)"

definition consistent :: "(nat \<Rightarrow> bool) \<Rightarrow> ofstream \<Rightarrow> string \<Rightarrow> bool" where
  "consistent dev os t =
     (if o_fail os then \<exists>n<length t. \<not> dev n
      else written os = t \<and> (\<forall>n<length t. dev n))"

definition disk_with :: "string \<Rightarrow> string \<Rightarrow> disk" where
  "disk_with name txt =
     \<lparr>files = (\<lambda>n. if n = name then Some txt else None), creatable = (\<lambda>n. True),
      accepts = (\<lambda>n. True), read_limit = (\<lambda>n. None)\<rparr>"

definition blank_disk :: disk where
  "blank_disk =
     \<lparr>files = (\<lambda>n. None), creatable = (\<lambda>n. True),
      accepts = (\<lambda>n. True), read_limit = (\<lambda>n. None)\<rparr>"


definition ifstream_on :: "string \<Rightarrow> bool \<Rightarrow> ifstream" where
  "ifstream_on txt b = \<lparr>i_rest = txt, i_eof = False, i_fail = False, i_bad = False, i_broken = b\<rparr>"

section \<open>Lemmas about the streams, the loops and the written text\<close>

subsection \<open>The encoder in closed form\<close>

lemma escape_loop_eq:
  "escape_loop field nq esc = (nq \<or> (\<exists>c\<in>set field. is_special c), esc @ double_quotes field)"
  by (induction field arbitrary: nq esc) (auto simp: is_special_def double_quotes_def)

lemma escape_csv_field_eq:
  "escape_csv_field field =
     (if \<exists>c\<in>set field. is_special c then [dquote] @ double_quotes field @ [dquote] else field)"
  by (simp add: escape_csv_field_def escape_loop_eq)

lemma set_double_quotes: "set (double_quotes f) = set f"
  by (induction f) (auto simp: double_quotes_def)

subsection \<open>The string stream\<close>

lemma good_sstream_of_iff [simp]:
  "good (sstream_of xs)" "rest (sstream_of xs) = xs"
  "eofbit (sstream_of xs) = False" "failbit (sstream_of xs) = False"
  by (simp_all add: good_def sstream_of_def)

lemma double_quotes_simps [simp]:
  "double_quotes [] = []"
  "double_quotes (dquote # f) = dquote # dquote # double_quotes f"
  "x \<noteq> dquote \<Longrightarrow> double_quotes (x # f) = x # double_quotes f"
  by (simp_all add: double_quotes_def)

lemma sget_Cons [simp]: "sget (sstream_of (c # cs)) = (Some c, sstream_of cs)"
  by (simp add: sget_def good_def sstream_of_def)

lemma speek_Cons [simp]: "speek (sstream_of (c # cs)) = (Some c, sstream_of (c # cs))"
  by (simp add: speek_def good_def sstream_of_def)

lemma sget_Nil [simp]: "sget (sstream_of []) = (None, failed)"
  by (simp add: sget_def good_def sstream_of_def failed_def)

lemma speek_at_end [simp]: "speek at_end = (None, failed)"
  by (simp add: speek_def good_def at_end_def failed_def)

lemma speek_failed [simp]: "speek failed = (None, failed)"
  by (simp add: speek_def good_def failed_def)

lemma sget_failed [simp]: "sget failed = (None, failed)"
  by (simp add: sget_def good_def failed_def)

lemma speek_Nil [simp]: "speek (sstream_of []) = (None, at_end)"
  by (simp add: speek_def good_def sstream_of_def at_end_def)

subsection \<open>The parser loops on a fresh stream\<close>

lemma read_unquoted_eq:
  "read_unquoted (sstream_of xs) c f =
     (f @ takeWhile (\<lambda>x. x \<noteq> comma) xs,
      if dropWhile (\<lambda>x. x \<noteq> comma) xs = [] then at_end
      else sstream_of (dropWhile (\<lambda>x. x \<noteq> comma) xs))"
proof (induction xs arbitrary: c f)
  case Nil
  show ?case by (subst read_unquoted.simps) simp
next
  case (Cons x xs)
  show ?case
  proof (cases "x = comma")
    case True
    then show ?thesis by (subst read_unquoted.simps) simp
  next
    case False
    then show ?thesis using Cons.IH [of x "f @ [x]"]
      by (subst read_unquoted.simps) auto
  qed
qed

text \<open>Reading back a field body that the encoder doubled the quotes of.\<close>

lemma read_quoted_doubled:
  "r = [] \<or> hd r \<noteq> dquote \<Longrightarrow>
   read_quoted (sstream_of (double_quotes f @ dquote # r)) q =
     (q @ f, if r = [] then at_end else sstream_of r)"
proof (induction f arbitrary: q)
  case Nil
  then show ?case
    by (subst read_quoted.simps) (cases r; simp)
next
  case (Cons x f)
  show ?case
  proof (cases "x = dquote")
    case True
    then show ?thesis using Cons.IH [OF Cons.prems, of "q @ [dquote]"]
      by (subst read_quoted.simps) simp
  next
    case False
    then show ?thesis using Cons.IH [OF Cons.prems, of "q @ [x]"]
      by (subst read_quoted.simps) simp
  qed
qed

lemma parse_fields_at_end [simp]: "parse_fields at_end row f = row"
  by (subst parse_fields.simps) (simp add: sget_def good_def at_end_def)

lemma peek_after_quote_simps [simp]:
  "peek_after_quote at_end = failed"
  "peek_after_quote failed = failed"
  "peek_after_quote (sstream_of (y # r)) = sstream_of (y # r)"
  by (simp_all add: peek_after_quote_def)

lemma parse_fields_quoted_field:
  "parse_fields (sstream_of (dquote # double_quotes f @ [dquote])) row [] = row @ [f]"
  using read_quoted_doubled [of "[]" f "[]"]
  by (subst parse_fields.simps) simp

lemma parse_fields_plain_field:
  assumes "f \<noteq> []" "\<forall>c\<in>set f. \<not> is_special c"
  shows "parse_fields (sstream_of f) row [] = row @ [f]"
proof -
  obtain c cs where f: "f = c # cs" using assms(1) by (cases f) auto
  have nc: "c \<noteq> dquote" and ncs: "\<forall>x\<in>set cs. x \<noteq> comma" using assms(2) f by (auto simp: is_special_def)
  have tw: "takeWhile (\<lambda>x. x \<noteq> comma) cs = cs" "dropWhile (\<lambda>x. x \<noteq> comma) cs = []"
    using ncs by auto
  show ?thesis unfolding f using nc
    by (subst parse_fields.simps) (simp add: read_unquoted_eq tw)
qed

subsection \<open>The writer loops\<close>

text \<open>
  \<open>consistent dev os t\<close> relates a stream to the text \<open>t\<close> inserted so far: either
  all of it was accepted and written, or the stream has failed and the destination
  refuses one of its characters.
\<close>

lemma put_consistent:
  "consistent dev os t \<Longrightarrow> consistent dev (put dev os s) (t @ s)"
proof (induction s arbitrary: os t)
  case Nil
  then show ?case by simp
next
  case (Cons c cs)
  show ?case
  proof (cases "o_fail os")
    case True
    then obtain n where "n < length t" "\<not> dev n"
      using Cons.prems by (auto simp: consistent_def)
    then have "n < length (t @ c # cs) \<and> \<not> dev n" by simp
    then show ?thesis using True by (auto simp: consistent_def simp del: length_append)
  next
    case nf: False
    then have w: "written os = t" and acc: "\<forall>n<length t. dev n"
      using Cons.prems by (auto simp: consistent_def)
    show ?thesis
    proof (cases "dev (length t)")
      case True
      have "consistent dev (os\<lparr>written := written os @ [c]\<rparr>) (t @ [c])"
        using nf w acc True by (auto simp: consistent_def less_Suc_eq)
      from Cons.IH [OF this] show ?thesis using nf w True by simp
    next
      case False
      then show ?thesis using nf w
        by (auto simp: consistent_def intro!: exI [of _ "length t"])
    qed
  qed
qed

lemma join_commas_drop:
  assumes "j < length row"
  shows "join_commas (map escape_csv_field (drop j row)) =
           escape_csv_field (row ! j) @
           (if j < length row - 1 then [comma] else []) @
           join_commas (map escape_csv_field (drop (j + 1) row))"
proof -
  have d: "drop j row = row ! j # drop (j + 1) row"
    using assms by (simp add: Cons_nth_drop_Suc)
  show ?thesis
  proof (cases "drop (j + 1) row")
    case Nil
    then have "\<not> j < length row - 1" by auto
    then show ?thesis using d Nil by simp
  next
    case (Cons y ys)
    then have "j < length row - 1"
      by (metis add.commute drop_eq_Nil2 less_diff_conv list.distinct(1) not_less plus_1_eq_Suc)
    then show ?thesis using d Cons by simp
  qed
qed

lemma write_fields_consistent:
  "consistent dev os t \<Longrightarrow>
   consistent dev (write_fields dev row j os) (t @ join_commas (map escape_csv_field (drop j row)))"
proof (induction dev row j os arbitrary: t rule: write_fields.induct)
  case (1 dev row j os)
  show ?case
  proof (cases "j < length row")
    case False
    then show ?thesis using "1.prems" by (subst write_fields.simps) simp
  next
    case True
    define os1 where "os1 = put dev os (escape_csv_field (row ! j))"
    define os2 where "os2 = (if j < length row - 1 then put dev os1 [comma] else os1)"
    define t2 where
      "t2 = t @ escape_csv_field (row ! j) @ (if j < length row - 1 then [comma] else [])"
    have c1: "consistent dev os1 (t @ escape_csv_field (row ! j))"
      unfolding os1_def by (rule put_consistent [OF "1.prems"])
    have c2: "consistent dev os2 t2"
      unfolding os2_def t2_def using c1 put_consistent [OF c1, of "[comma]"] by simp
    have "consistent dev (write_fields dev row (j + 1) os2)
            (t2 @ join_commas (map escape_csv_field (drop (j + 1) row)))"
      by (rule "1.IH" [OF True os1_def os2_def c2])
    moreover have "write_fields dev row j os = write_fields dev row (j + 1) os2"
      using True by (subst write_fields.simps) (simp add: os1_def os2_def Let_def)
    ultimately show ?thesis
      using join_commas_drop [OF True] by (simp add: t2_def)
  qed
qed

lemma write_rows_consistent:
  "consistent dev os t \<Longrightarrow>
   consistent dev (write_rows dev data i os) (t @ csv_text (drop i data))"
proof (induction dev data i os arbitrary: t rule: write_rows.induct)
  case (1 dev data i os)
  show ?case
  proof (cases "i < length data")
    case False
    then show ?thesis using "1.prems"
      by (subst write_rows.simps) (simp add: csv_text_def)
  next
    case True
    define row where "row = data ! i"
    define os1 where "os1 = write_fields dev row 0 os"
    define os2 where "os2 = put dev os1 [newline]"
    define t2 where "t2 = t @ join_commas (map escape_csv_field row) @ [newline]"
    have c1: "consistent dev os1 (t @ join_commas (map escape_csv_field row))"
      unfolding os1_def using write_fields_consistent [OF "1.prems", of row 0] by simp
    have c2: "consistent dev os2 t2"
      unfolding os2_def t2_def using put_consistent [OF c1, of "[newline]"] by simp
    have "consistent dev (write_rows dev data (i + 1) os2) (t2 @ csv_text (drop (i + 1) data))"
      by (rule "1.IH" [OF True row_def os1_def os2_def c2])
    moreover have "write_rows dev data i os = write_rows dev data (i + 1) os2"
      using True by (subst write_rows.simps) (simp add: row_def os1_def os2_def Let_def)
    moreover have "csv_text (drop i data) =
        join_commas (map escape_csv_field row) @ [newline] @ csv_text (drop (i + 1) data)"
      using True by (simp add: csv_text_def row_def flip: Cons_nth_drop_Suc)
    ultimately show ?thesis by (simp add: t2_def)
  qed
qed

lemma write_rows_all:
  "consistent dev (write_rows dev data 0 \<lparr>written = [], o_fail = False\<rparr>) (csv_text data)"
  using write_rows_consistent [of dev "\<lparr>written = [], o_fail = False\<rparr>" "[]" data 0]
  by (simp add: consistent_def)

subsection \<open>The line loop\<close>

lemma getline_line:
  "newline \<notin> set l \<Longrightarrow> getline (ifstream_on (l @ newline # xs) b) = (Some l, ifstream_on xs b)"
proof -
  assume n: "newline \<notin> set l"
  have t: "takeWhile (\<lambda>c. c \<noteq> newline) (l @ newline # xs) = l"
    using n by (induction l) auto
  have d: "dropWhile (\<lambda>c. c \<noteq> newline) (l @ newline # xs) = newline # xs"
    using n by (induction l) auto
  show ?thesis by (simp add: getline_def ifstream_on_def t d)
qed

lemma getline_end:
  "getline (ifstream_on [] False) =
     (None, \<lparr>i_rest = [], i_eof = True, i_fail = True, i_bad = False, i_broken = False\<rparr>)"
  by (simp add: getline_def ifstream_on_def)

lemma parse_line_Nil: "parse_line [] = []"
  by (subst parse_line_def, subst parse_fields.simps) simp

lemma read_quoted_state:
  "snd (read_quoted (sstream_of xs) q) = failed \<or>
   snd (read_quoted (sstream_of xs) q) = at_end \<or>
   (\<exists>y r. snd (read_quoted (sstream_of xs) q) = sstream_of (y # r) \<and> y \<noteq> dquote)"
proof (induction xs arbitrary: q rule: length_induct)
  case (1 xs)
  show ?case
  proof (cases xs)
    case Nil
    then show ?thesis by (subst (1 2 3) read_quoted.simps) simp
  next
    case (Cons x xs')
    show ?thesis
    proof (cases "x = dquote")
      case False
      then show ?thesis using "1.IH" [rule_format, of xs' "q @ [x]"] Cons
        by (subst (1 2 3) read_quoted.simps) simp
    next
      case True
      show ?thesis
      proof (cases xs')
        case Nil
        then show ?thesis using True Cons
          by (subst (1 2 3) read_quoted.simps) simp
      next
        case c2: (Cons y ys)
        show ?thesis
        proof (cases "y = dquote")
          case False
          then show ?thesis using True Cons c2
            by (subst (1 2 3) read_quoted.simps) auto
        next
          case T2: True
          then show ?thesis using "1.IH" [rule_format, of ys "q @ [dquote]"] True Cons c2
            by (subst (1 2 3) read_quoted.simps) simp
        qed
      qed
    qed
  qed
qed

lemma read_quoted_leaves_no_quote:
  "rest (snd (read_quoted (sstream_of cs) q)) = [] \<or>
   hd (rest (snd (read_quoted (sstream_of cs) q))) \<noteq> dquote"
  using read_quoted_state [of cs q] by (auto simp: failed_def at_end_def)

lemma read_rows_keeps_rows: "length data \<le> length (fst (read_rows s data))"
proof (induction s data rule: read_rows.induct)
  case (1 infile data)
  obtain r infile1 where g: "getline infile = (r, infile1)" by (cases "getline infile")
  show ?case
  proof (cases r)
    case None
    then show ?thesis using g by (subst read_rows.simps) simp
  next
    case (Some line0)
    define line where "line = (if line0 \<noteq> [] \<and> last line0 = cret then butlast line0 else line0)"
    note g' = g [unfolded Some]
    show ?thesis
    proof (cases "line = [] \<and> i_eof infile1")
      case True
      then show ?thesis
        using "1.IH"(1) [OF g' [symmetric] refl line_def True] g'
        by (subst read_rows.simps) (simp add: line_def)
    next
      case False
      then show ?thesis
        using "1.IH"(2) [OF g' [symmetric] refl line_def False] g'
        by (subst read_rows.simps) (auto simp: line_def Let_def)
    qed
  qed
qed

lemma read_rows_row_per_line_break:
  "length data + count_list xs newline \<le> length (fst (read_rows (ifstream_on xs b) data))"
proof (induction xs arbitrary: data rule: length_induct)
  case (1 xs)
  show ?case
  proof (cases "newline \<in> set xs")
    case False
    then have "count_list xs newline = 0" by (simp add: count_list_0_iff)
    then show ?thesis using read_rows_keeps_rows [of data "ifstream_on xs b"] by simp
  next
    case True
    then obtain l ys where xs: "xs = l @ newline # ys" and nl: "newline \<notin> set l"
      by (auto dest: split_list_first)
    define line where "line = (if l \<noteq> [] \<and> last l = cret then butlast l else l)"
    have c: "count_list xs newline = Suc (count_list ys newline)"
      using nl by (simp add: xs count_list_0_iff)
    have "length ys < length xs" by (simp add: xs)
    from "1.IH" [rule_format, OF this, of "data @ [parse_line line]"]
    have ih: "Suc (length data + count_list ys newline)
        \<le> length (fst (read_rows (ifstream_on ys b) (data @ [parse_line line])))"
      by simp
    have "read_rows (ifstream_on xs b) data = read_rows (ifstream_on ys b) (data @ [parse_line line])"
      unfolding xs using getline_line [OF nl, of ys b]
      by (subst read_rows.simps) (simp add: line_def, simp add: ifstream_on_def)
    then show ?thesis using ih c by simp
  qed
qed

lemma write_csv_single:
  assumes "creatable d filename" "\<forall>n. accepts d n"
  shows "write_csv d filename [[f]] =
      (True, [], d\<lparr>files := (files d)(filename \<mapsto> escape_csv_field f @ [newline])\<rparr>)"
proof -
  have ct: "csv_text [[f]] = escape_csv_field f @ [newline]"
    by (simp add: csv_text_def)
  show ?thesis
    using write_rows_all [of "accepts d" "[[f]]"] assms
    by (auto simp: write_csv_def Let_def consistent_def ct)
qed

lemma open_in_written:
  "read_limit d filename = None \<Longrightarrow>
   open_in (d\<lparr>files := (files d)(filename \<mapsto> t)\<rparr>) filename = Some (ifstream_on t False)"
  by (simp add: open_in_def ifstream_on_def)

lemma read_rows_one_line:
  assumes "newline \<notin> set l"
  shows "fst (read_rows (ifstream_on (l @ [newline]) False) []) =
           [parse_line (if l \<noteq> [] \<and> last l = cret then butlast l else l)] \<and>
         \<not> i_bad (snd (read_rows (ifstream_on (l @ [newline]) False) []))"
proof -
  have r2: "read_rows (ifstream_on [] False) data =
      (data, \<lparr>i_rest = [], i_eof = True, i_fail = True, i_bad = False, i_broken = False\<rparr>)"
    for data
    by (subst read_rows.simps) (simp add: getline_end)
  have r1: "read_rows (ifstream_on (l @ [newline]) False) [] =
      read_rows (ifstream_on [] False)
        [parse_line (if l \<noteq> [] \<and> last l = cret then butlast l else l)]"
    using getline_line [OF assms, of "[]" False]
    by (subst read_rows.simps) (simp, simp add: ifstream_on_def)
  show ?thesis by (simp add: r1 r2)
qed

section \<open>The claims of the specification\<close>

text \<open>
  Claim C1 says that every field survives being written by \<open>write_csv\<close> and read back by
  \<open>read_csv\<close>. The empty field does not, and neither does a field with a line break in
  it: the first comes back as a row without fields, the second as two rows.
\<close>
theorem roundtrip_every_field_counterexample:
  "fst (read_csv (snd (snd (write_csv blank_disk ''t.csv'' [['''']]))) ''t.csv'') \<noteq> [['''']] \<and>
   fst (read_csv (snd (snd (write_csv blank_disk ''t.csv'' [[[CHR ''a'', newline, CHR ''b'']]]))) ''t.csv'')
     \<noteq> [[[CHR ''a'', newline, CHR ''b'']]]"
proof -
  have "fst (read_csv (snd (snd (write_csv blank_disk ''t.csv'' [['''']]))) ''t.csv'') = [[]]"
    by code_simp
  moreover have
    "fst (read_csv (snd (snd (write_csv blank_disk ''t.csv'' [[[CHR ''a'', newline, CHR ''b'']]]))) ''t.csv'') =
       [[''a''], [[CHR ''b'', dquote]]]"
    by code_simp
  ultimately show ?thesis by simp
qed

text \<open>
  Claim C1, amended. A field without a line break (LF) that contains a comma or a quote
  character, or is non-empty and does not end in a carriage return, is read back
  unchanged: written as the only field of the only row on a disk that takes the file,
  \<open>read_csv\<close> returns the table with that one field and reports nothing.
\<close>
theorem roundtrip_field:
  assumes cr: "creatable d filename"
    and acc: "\<forall>n. accepts d n"
    and lim: "read_limit d filename = None"
    and nl: "newline \<notin> set f"
    and shape: "comma \<in> set f \<or> dquote \<in> set f \<or> (f \<noteq> [] \<and> last f \<noteq> cret)"
  shows "fst (write_csv d filename [[f]]) \<and>
         read_csv (snd (snd (write_csv d filename [[f]]))) filename = ([[f]], [])"
proof -
  define line where "line = escape_csv_field f"
  have w: "write_csv d filename [[f]] =
      (True, [], d\<lparr>files := (files d)(filename \<mapsto> line @ [newline])\<rparr>)"
    unfolding line_def by (rule write_csv_single [OF cr acc])
  have line_nl: "newline \<notin> set line"
    using nl by (auto simp: line_def escape_csv_field_eq set_double_quotes)
  have pl: "parse_line line = [f] \<and> line \<noteq> [] \<and> last line \<noteq> cret"
  proof (cases "\<exists>c\<in>set f. is_special c")
    case True
    then have l: "line = dquote # double_quotes f @ [dquote]"
      by (simp add: line_def escape_csv_field_eq)
    show ?thesis unfolding l parse_line_def
      using parse_fields_quoted_field [of f "[]"] by simp
  next
    case False
    then have l: "line = f" by (simp add: line_def escape_csv_field_eq)
    from False shape have ne: "f \<noteq> []" and lc: "last f \<noteq> cret"
      by (auto simp: is_special_def)
    from False ne have "last f \<noteq> comma"
      using last_in_set [OF ne] by (auto simp: is_special_def)
    then show ?thesis unfolding l parse_line_def
      using parse_fields_plain_field [of f "[]"] False ne lc by simp
  qed
  show ?thesis
    using read_rows_one_line [OF line_nl] pl
    by (simp add: w read_csv_def open_in_written [OF lim] split_beta)
qed

theorem roundtrip_field_witness:
  "creatable blank_disk ''t.csv'' \<and> (\<forall>n. accepts blank_disk n) \<and>
   read_limit blank_disk ''t.csv'' = None \<and>
   read_csv (snd (snd (write_csv blank_disk ''t.csv'' [[[CHR ''a'', comma, dquote, cret]]]))) ''t.csv'' =
     ([[[CHR ''a'', comma, dquote, cret]]], []) \<and>
   read_csv (snd (snd (write_csv blank_disk ''t.csv'' [[''plain'']]))) ''t.csv'' = ([[''plain'']], [])"
proof -
  have a: "creatable blank_disk ''t.csv''" and b: "\<forall>n. accepts blank_disk n"
    and c: "read_limit blank_disk ''t.csv'' = None"
    by (simp_all add: blank_disk_def)
  show ?thesis
    using a b c
      roundtrip_field [OF a b c, of "[CHR ''a'', comma, dquote, cret]"]
      roundtrip_field [OF a b c, of "''plain''"]
    by simp
qed

text \<open>
  The condition of the amended claim is exact: on such a disk no other field is read
  back unchanged.
\<close>
lemma roundtrip_field_only_if:
  assumes cr: "creatable d filename"
    and acc: "\<forall>n. accepts d n"
    and lim: "read_limit d filename = None"
    and rt: "fst (read_csv (snd (snd (write_csv d filename [[f]]))) filename) = [[f]]"
  shows "newline \<notin> set f \<and>
         (comma \<in> set f \<or> dquote \<in> set f \<or> (f \<noteq> [] \<and> last f \<noteq> cret))"
proof -
  define line where "line = escape_csv_field f"
  have rd: "fst (read_rows (ifstream_on (line @ [newline]) False) []) = [[f]]"
    using rt
    by (simp add: write_csv_single [OF cr acc] read_csv_def open_in_written [OF lim]
        line_def split_beta)
  have nl: "newline \<notin> set f"
  proof
    assume "newline \<in> set f"
    then have "newline \<in> set line"
      by (auto simp: line_def escape_csv_field_eq set_double_quotes is_special_def)
    then have "0 < count_list line newline"
      using count_list_0_iff [of line newline] by auto
    then have "2 \<le> count_list (line @ [newline]) newline" by simp
    then have "2 \<le> length (fst (read_rows (ifstream_on (line @ [newline]) False) []))"
      using read_rows_row_per_line_break [of "[]" "line @ [newline]" False] by simp
    then show False by (simp add: rd)
  qed
  have "comma \<in> set f \<or> dquote \<in> set f \<or> (f \<noteq> [] \<and> last f \<noteq> cret)"
  proof (rule ccontr)
    assume "\<not> ?thesis"
    then have nc: "comma \<notin> set f" and nq: "dquote \<notin> set f"
      and bad: "f = [] \<or> last f = cret" by auto
    have plain: "\<forall>c\<in>set f. \<not> is_special c"
      using nl nc nq by (auto simp: is_special_def)
    then have l: "line = f" by (simp add: line_def escape_csv_field_eq)
    define kept where "kept = (if f \<noteq> [] \<and> last f = cret then butlast f else f)"
    have one: "[parse_line kept] = [[f]]"
      using read_rows_one_line [of f] nl rd by (simp add: l kept_def)
    have "butlast f \<noteq> f" if "f \<noteq> []"
      using that length_butlast [of f] by (cases f) auto
    then have "kept \<noteq> f \<or> f = []" using bad by (auto simp: kept_def)
    moreover have "parse_line kept = (if kept = [] then [] else [kept])"
    proof (cases "kept = []")
      case True
      then show ?thesis by (simp add: parse_line_Nil)
    next
      case False
      have sub: "set kept \<subseteq> set f" by (auto simp: kept_def dest: in_set_butlastD)
      then have pf: "\<forall>c\<in>set kept. \<not> is_special c" using plain by auto
      then have "last kept \<noteq> comma"
        using last_in_set [OF False] by (auto simp: is_special_def)
      then show ?thesis
        using parse_fields_plain_field [OF False pf, of "[]"] False
        by (simp add: parse_line_def)
    qed
    ultimately show False using one by (auto split: if_splits)
  qed
  then show ?thesis using nl by simp
qed

text \<open>
  Claim C2. For every field: if it contains a comma, a line break (the character LF) or
  a quote character, \<open>escape_csv_field\<close> returns the field with every quote character
  doubled, wrapped in one quote character on each side; if it contains none of the three,
  \<open>escape_csv_field\<close> returns the field as it is.
\<close>
theorem escape_csv_field_cases:
  "((\<exists>c\<in>set field. c = comma \<or> c = newline \<or> c = dquote) \<longrightarrow>
      escape_csv_field field = [dquote] @ double_quotes field @ [dquote]) \<and>
   ((\<forall>c\<in>set field. c \<noteq> comma \<and> c \<noteq> newline \<and> c \<noteq> dquote) \<longrightarrow>
      escape_csv_field field = field)"
  by (auto simp: escape_csv_field_eq is_special_def)

theorem escape_csv_field_cases_witness:
  "escape_csv_field [CHR ''a'', comma, dquote] = [dquote, CHR ''a'', comma, dquote, dquote, dquote] \<and>
   escape_csv_field ''ab'' = ''ab''"
  using escape_csv_field_cases [of "[CHR ''a'', comma, dquote]"] escape_csv_field_cases [of "''ab''"]
  by (simp add: double_quotes_def)

text \<open>
  Claim C3 says that the line \<^verbatim>\<open>a,,c\<close> decodes to the three fields \<^verbatim>\<open>a\<close>, the
  empty field, and \<^verbatim>\<open>c\<close>. The parser does not do that: after it consumed the first
  comma, the character loop takes the second comma as the first character of an unquoted
  field, and the row is \<^verbatim>\<open>a\<close> followed by \<^verbatim>\<open>,c\<close>. The theorem evaluates the
  parser on that line.
\<close>
theorem parse_line_empty_middle_field:
  "parse_line ''a,,c'' = [''a'', '',c'']"
  by code_simp

text \<open>
  Claim C4 says that a zero-length line decodes to one row holding one empty field. On a
  file that consists of a single line break, \<open>read_csv\<close> returns something else.
\<close>
theorem empty_line_one_empty_field_counterexample:
  "fst (read_csv (disk_with ''in.csv'' [newline]) ''in.csv'') \<noteq> [['''']]"
  by code_simp

text \<open>
  Claim C4, amended. A zero-length line that is terminated by a line break (LF, or CR LF)
  contributes exactly one row to the table, and that row has no field: the character
  loop does not run and nothing is pushed before the row is appended.
\<close>
theorem empty_line_empty_row:
  "parse_line [] = [] \<and>
   read_rows (ifstream_on (newline # xs) b) data = read_rows (ifstream_on xs b) (data @ [[]]) \<and>
   read_rows (ifstream_on (cret # newline # xs) b) data = read_rows (ifstream_on xs b) (data @ [[]])"
proof -
  have a: "read_rows (ifstream_on (newline # xs) b) data = read_rows (ifstream_on xs b) (data @ [[]])"
    using getline_line [of "[]" xs b]
    by (subst read_rows.simps) (simp add: parse_line_Nil, simp add: ifstream_on_def)
  have b: "read_rows (ifstream_on (cret # newline # xs) b) data = read_rows (ifstream_on xs b) (data @ [[]])"
    using getline_line [of "[cret]" xs b]
    by (subst read_rows.simps) (simp add: parse_line_Nil, simp add: ifstream_on_def)
  show ?thesis using a b parse_line_Nil by simp
qed

text \<open>
  Claim C5. For every line that ends in a comma the decoded row ends in an empty field;
  the line \<^verbatim>\<open>a,b,\<close> decodes to the row of \<^verbatim>\<open>a\<close>, \<^verbatim>\<open>b\<close> and the empty field.
\<close>
theorem parse_line_trailing_comma:
  "(line \<noteq> [] \<and> last line = comma \<longrightarrow> parse_line line \<noteq> [] \<and> last (parse_line line) = []) \<and>
   parse_line ''a,b,'' = [''a'', ''b'', '''']"
proof -
  have "parse_line ''a,b,'' = [''a'', ''b'', '''']" by code_simp
  then show ?thesis by (simp add: parse_line_def)
qed

theorem parse_line_trailing_comma_witness:
  "''x,'' \<noteq> [] \<and> last ''x,'' = comma \<and> parse_line ''x,'' = [''x'', '''']"
proof -
  have "parse_line ''x,'' = [''x'', '''']" by code_simp
  then show ?thesis using parse_line_trailing_comma [of "''x,''"] by simp
qed

text \<open>
  Claim C6. The field \<^verbatim>\<open>He said\<close> followed by \<^verbatim>\<open>hi\<close> in quote characters is
  encoded as the same text with both quote characters doubled and one more quote
  character on each side, and decoding that text as one line gives a row whose only
  field is the original.
\<close>
theorem quoted_field_scenario:
  "escape_csv_field (''He said '' @ [dquote] @ ''hi'' @ [dquote]) =
     [dquote] @ ''He said '' @ [dquote, dquote] @ ''hi'' @ [dquote, dquote] @ [dquote] \<and>
   parse_line ([dquote] @ ''He said '' @ [dquote, dquote] @ ''hi'' @ [dquote, dquote] @ [dquote]) =
     [''He said '' @ [dquote] @ ''hi'' @ [dquote]]"
proof -
  have "escape_csv_field (''He said '' @ [dquote] @ ''hi'' @ [dquote]) =
     [dquote] @ ''He said '' @ [dquote, dquote] @ ''hi'' @ [dquote, dquote] @ [dquote]"
    by code_simp
  moreover have "parse_line ([dquote] @ ''He said '' @ [dquote, dquote] @ ''hi'' @ [dquote, dquote] @ [dquote]) =
     [''He said '' @ [dquote] @ ''hi'' @ [dquote]]"
    by code_simp
  ultimately show ?thesis by (rule conjI)
qed





text \<open>
  Claim C9. When the file cannot be opened for reading, \<open>read_csv\<close> returns the empty
  table and reports the failure on the error stream.
\<close>
theorem read_csv_unopenable:
  "files d filename = None \<Longrightarrow>
   read_csv d filename =
     ([], ''Error: Could not open file '' @ filename @ '' for reading.'' @ [newline])"
  by (simp add: read_csv_def open_in_def)

theorem read_csv_unopenable_witness:
  "files blank_disk ''missing.csv'' = None \<and>
   read_csv blank_disk ''missing.csv'' =
     ([], ''Error: Could not open file missing.csv for reading.'' @ [newline])"
proof -
  have h: "files blank_disk ''missing.csv'' = None" by (simp add: blank_disk_def)
  show ?thesis using h read_csv_unopenable [OF h] by simp
qed

text \<open>
  Claim C10. An iteration of the character loop that starts at a character other than
  a quote takes everything up to the next comma or the end of the line as the field,
  quote characters included, and the next iteration, if any, starts after that comma.
  An iteration that starts at a quote runs the quoted loop; the next iteration starts
  after the comma that follows the closing quote, or at the character that follows it,
  and that character is never a quote (third part). So the quoted loop is entered only
  at the start of the line or right after a consumed comma.
\<close>
theorem quoted_mode_only_at_field_start:
  "(c \<noteq> dquote \<longrightarrow>
      parse_fields (sstream_of (c # cs)) row [] =
        (case dropWhile (\<lambda>x. x \<noteq> comma) cs of
           [] \<Rightarrow> row @ [c # takeWhile (\<lambda>x. x \<noteq> comma) cs]
         | x # r \<Rightarrow> parse_fields (sstream_of r) (row @ [c # takeWhile (\<lambda>x. x \<noteq> comma) cs]) [])) \<and>
   parse_fields (sstream_of (dquote # cs)) row [] =
     (case read_quoted (sstream_of cs) [] of
        (quoted_content, s2) \<Rightarrow>
          (case rest s2 of
             [] \<Rightarrow> row @ [quoted_content]
           | y # r \<Rightarrow>
               if y = comma then parse_fields (sstream_of r) (row @ [quoted_content]) []
               else parse_fields (sstream_of (y # r)) (row @ [quoted_content]) [])) \<and>
   (rest (snd (read_quoted (sstream_of xs) q)) = [] \<or>
    hd (rest (snd (read_quoted (sstream_of xs) q))) \<noteq> dquote)"
proof (intro conjI impI)
  assume nq: "c \<noteq> dquote"
  show "parse_fields (sstream_of (c # cs)) row [] =
      (case dropWhile (\<lambda>x. x \<noteq> comma) cs of
         [] \<Rightarrow> row @ [c # takeWhile (\<lambda>x. x \<noteq> comma) cs]
       | x # r \<Rightarrow> parse_fields (sstream_of r) (row @ [c # takeWhile (\<lambda>x. x \<noteq> comma) cs]) [])"
  proof (cases "dropWhile (\<lambda>x. x \<noteq> comma) cs")
    case Nil
    show ?thesis using nq
      by (subst parse_fields.simps) (simp add: read_unquoted_eq Nil)
  next
    case (Cons x r)
    then have "x = comma" using hd_dropWhile [of "\<lambda>x. x \<noteq> comma" cs] by auto
    then show ?thesis using nq
      by (subst parse_fields.simps) (simp add: read_unquoted_eq Cons)
  qed
next
  obtain fld s2 where rq: "read_quoted (sstream_of cs) [] = (fld, s2)"
    by (cases "read_quoted (sstream_of cs) []")
  from read_quoted_state [of cs "[]"] rq
  consider "s2 = failed" | "s2 = at_end"
    | y r where "s2 = sstream_of (y # r)" "y \<noteq> dquote"
    by auto
  then show "parse_fields (sstream_of (dquote # cs)) row [] =
     (case read_quoted (sstream_of cs) [] of
        (quoted_content, s2) \<Rightarrow>
          (case rest s2 of
             [] \<Rightarrow> row @ [quoted_content]
           | y # r \<Rightarrow>
               if y = comma then parse_fields (sstream_of r) (row @ [quoted_content]) []
               else parse_fields (sstream_of (y # r)) (row @ [quoted_content]) []))"
  proof cases
    case 1
    then show ?thesis
      by (subst parse_fields.simps) (simp add: rq, simp add: failed_def)
  next
    case 2
    then show ?thesis
      by (subst parse_fields.simps) (simp add: rq, simp add: at_end_def)
  next
    case 3
    then show ?thesis
      by (subst parse_fields.simps) (simp add: rq)
  qed
next
  show "rest (snd (read_quoted (sstream_of xs) q)) = [] \<or>
    hd (rest (snd (read_quoted (sstream_of xs) q))) \<noteq> dquote"
    by (rule read_quoted_leaves_no_quote)
qed

theorem quoted_mode_only_at_field_start_witness:
  "CHR ''a'' \<noteq> dquote \<and>
   parse_fields (sstream_of (CHR ''a'' # [CHR ''b'', dquote, CHR ''c'', comma, CHR ''d''])) [] [] =
     [[CHR ''a'', CHR ''b'', dquote, CHR ''c''], ''d''] \<and>
   rest (snd (read_quoted (sstream_of [CHR ''x'', dquote, CHR ''y'']) [])) = ''y''"
proof -
  have a: "parse_fields (sstream_of ''d'') [[CHR ''a'', CHR ''b'', dquote, CHR ''c'']] [] =
      [[CHR ''a'', CHR ''b'', dquote, CHR ''c''], ''d'']"
    by code_simp
  have b: "rest (snd (read_quoted (sstream_of [CHR ''x'', dquote, CHR ''y'']) [])) = ''y''"
    by code_simp
  show ?thesis
    using a b
      quoted_mode_only_at_field_start
        [of "CHR ''a''" "[CHR ''b'', dquote, CHR ''c'', comma, CHR ''d'']" "[]"
            "[CHR ''x'', dquote, CHR ''y'']" "[]"]
    by simp
qed

end
